theory Spec2Isabelle
  imports Main "HOL-Library.Multiset"
begin

section \<open>Data model\<close>

text \<open>
  The program (\<^verbatim>\<open>src/main.py\<close>) builds a dictionary from terms to sets of document
  identifiers and evaluates infix boolean queries over it with two stacks.

  Python sets are mutable objects that are shared by reference: the dictionary and the
  value stack of the evaluator may hold the very same set object. The model therefore
  keeps every set object in an explicit store, a list indexed by the object's address;
  \<^verbatim>\<open>set()\<close> and the set operations that return a new set allocate at the end of the
  store, \<^verbatim>\<open>s.add(x)\<close> updates the store in place. The dictionary maps a term to the
  address of its postings set.
\<close>

type_synonym doc_id = string
type_synonym ref = nat
type_synonym heap = "doc_id set list"
type_synonym inverted_index = "string \<rightharpoonup> ref"

text \<open>The only exception the modelled code raises by itself: a pop from, or an index
  into, an empty list.\<close>

datatype py_error = IndexError

definition alloc :: "doc_id set \<Rightarrow> heap \<Rightarrow> ref \<times> heap" where
  "alloc s h = (length h, h @ [s])"

text \<open>What the dictionary and the store together denote: \<^verbatim>\<open>index[t]\<close> as a set value,
  if \<^verbatim>\<open>t\<close> is a key.\<close>

definition entry :: "('k \<rightharpoonup> ref) \<Rightarrow> heap \<Rightarrow> 'k \<rightharpoonup> doc_id set" where
  "entry idx h t = (case idx t of None \<Rightarrow> None | Some r \<Rightarrow> Some (h ! r))"

text \<open>Python has no dangling references: every address held by the dictionary is
  allocated.\<close>

definition refs_ok :: "('k \<rightharpoonup> ref) \<Rightarrow> heap \<Rightarrow> bool" where
  "refs_ok idx h = (\<forall>t r. idx t = Some r \<longrightarrow> r < length h)"

section \<open>The query evaluator\<close>

text \<open>
  The two fields of a \<^verbatim>\<open>QueryEvaluator\<close> object and the store. Each stack is a list
  whose head is the top of the stack (the last element of the Python list). The value
  stack holds addresses of set objects.
\<close>

record config =
  "values" :: "ref list"
  ops :: "string list"
  heap :: heap

definition QueryEvaluator_init :: "heap \<Rightarrow> config" where
  "QueryEvaluator_init h = \<lparr>values = [], ops = [], heap = h\<rparr>"

definition precedence :: "string \<Rightarrow> nat" where
  "precedence op = (if op = ''AND'' \<or> op = ''OR'' then 1 else 2)"

definition is_operator :: "string \<Rightarrow> bool" where
  "is_operator elem = (elem = ''AND'' \<or> elem = ''OR'' \<or> elem = ''NOT'')"

text \<open>\<^verbatim>\<open>perform_operation\<close>: each of the three set operations returns a new set object.\<close>

definition perform_operation :: "ref \<Rightarrow> ref \<Rightarrow> string \<Rightarrow> heap \<Rightarrow> ref \<times> heap" where
  "perform_operation posting1 posting2 op h =
     (if op = ''AND'' then alloc (h ! posting1 \<inter> h ! posting2) h
      else if op = ''OR'' then alloc (h ! posting1 \<union> h ! posting2) h
      else alloc (h ! posting2 - h ! posting1) h)"

text \<open>\<^verbatim>\<open>list.pop()\<close> raises \<^verbatim>\<open>IndexError\<close> on an empty list and leaves it unchanged.\<close>

definition pop_value :: "config \<Rightarrow> (py_error + ref) \<times> config" where
  "pop_value st =
     (case values st of
        [] \<Rightarrow> (Inl IndexError, st)
      | v # vs \<Rightarrow> (Inr v, st\<lparr>values := vs\<rparr>))"

definition pop_op :: "config \<Rightarrow> (py_error + string) \<times> config" where
  "pop_op st =
     (case ops st of
        [] \<Rightarrow> (Inl IndexError, st)
      | op # os \<Rightarrow> (Inr op, st\<lparr>ops := os\<rparr>))"

definition push_result :: "ref \<times> heap \<Rightarrow> config \<Rightarrow> config" where
  "push_result rh st = st\<lparr>values := fst rh # values st, heap := snd rh\<rparr>"

text \<open>The body of the \<^verbatim>\<open>while\<close> loop of the main pass (lines 120 to 124): pop
  \<^verbatim>\<open>val1\<close>, pop \<^verbatim>\<open>val2\<close>, pop \<^verbatim>\<open>op\<close>, push the result.\<close>

definition reduce_step :: "config \<Rightarrow> (py_error + unit) \<times> config" where
  "reduce_step st =
     (case pop_value st of
        (Inl e, s1) \<Rightarrow> (Inl e, s1)
      | (Inr val1, s1) \<Rightarrow>
     (case pop_value s1 of
        (Inl e, s2) \<Rightarrow> (Inl e, s2)
      | (Inr val2, s2) \<Rightarrow>
     (case pop_op s2 of
        (Inl e, s3) \<Rightarrow> (Inl e, s3)
      | (Inr op, s3) \<Rightarrow>
          (Inr (), push_result (perform_operation val1 val2 op (heap s3)) s3))))"

lemma reduce_step_ops:
  "reduce_step st = (Inr u, st') \<Longrightarrow> ops st \<noteq> [] \<and> ops st' = tl (ops st)"
  by (auto simp: reduce_step_def pop_value_def pop_op_def push_result_def
           split: list.splits)

text \<open>The \<^verbatim>\<open>while\<close> loop of the main pass (line 119).\<close>

function reduce_while :: "string \<Rightarrow> config \<Rightarrow> (py_error + unit) \<times> config" where
  "reduce_while elem st =
     (if ops st \<noteq> [] \<and> precedence (hd (ops st)) \<ge> precedence elem then
        (case reduce_step st of
           (Inl e, st') \<Rightarrow> (Inl e, st')
         | (Inr u, st') \<Rightarrow> reduce_while elem st')
      else (Inr (), st))"
  by pat_completeness auto
termination
proof (relation "measure (\<lambda>(elem, st). length (ops st))")
  show "wf (measure (\<lambda>(elem, st). length (ops st)))" by simp
next
  fix elem :: string and st x y :: config and u :: unit and z
  assume "ops st \<noteq> [] \<and> precedence elem \<le> precedence (hd (ops st))"
    and "(z, y) = reduce_step st" and "z = Inr u"
  then have "reduce_step st = (Inr u, y)" by simp
  from reduce_step_ops [OF this]
  show "((elem, y), (elem, st)) \<in> measure (\<lambda>(elem, st). length (ops st))"
    by (cases "ops st") auto
qed

text \<open>The main pass (lines 117 to 133): an operator token reduces while the top of the
  operator stack has at least its precedence, and is pushed; any other token is looked
  up in the dictionary and its postings set, or a new empty set, is pushed.\<close>

fun main_pass :: "string list \<Rightarrow> inverted_index \<Rightarrow> config \<Rightarrow> (py_error + unit) \<times> config" where
  "main_pass [] inverted_index st = (Inr (), st)"
| "main_pass (elem # query) inverted_index st =
     (if is_operator elem then
        (case reduce_while elem st of
           (Inl e, st') \<Rightarrow> (Inl e, st')
         | (Inr u, st') \<Rightarrow> main_pass query inverted_index (st'\<lparr>ops := elem # ops st'\<rparr>))
      else
        (case inverted_index elem of
           Some postings \<Rightarrow>
             main_pass query inverted_index (st\<lparr>values := postings # values st\<rparr>)
         | None \<Rightarrow>
             main_pass query inverted_index (push_result (alloc {} (heap st)) st)))"

text \<open>The body of the final loop (lines 137 to 145): pop \<^verbatim>\<open>first_op\<close>, pop \<^verbatim>\<open>val1\<close>,
  pop \<^verbatim>\<open>val2\<close>; for \<^verbatim>\<open>NOT\<close> pop one more operator and push the difference, otherwise
  push the result of \<^verbatim>\<open>first_op\<close>.\<close>

definition drain_step :: "config \<Rightarrow> (py_error + unit) \<times> config" where
  "drain_step st =
     (case pop_op st of
        (Inl e, s1) \<Rightarrow> (Inl e, s1)
      | (Inr first_op, s1) \<Rightarrow>
     (case pop_value s1 of
        (Inl e, s2) \<Rightarrow> (Inl e, s2)
      | (Inr val1, s2) \<Rightarrow>
     (case pop_value s2 of
        (Inl e, s3) \<Rightarrow> (Inl e, s3)
      | (Inr val2, s3) \<Rightarrow>
          (if first_op = ''NOT'' then
             (case pop_op s3 of
                (Inl e, s4) \<Rightarrow> (Inl e, s4)
              | (Inr discarded, s4) \<Rightarrow>
                  (Inr (), push_result (perform_operation val1 val2 ''difference'' (heap s4)) s4))
           else
             (Inr (), push_result (perform_operation val1 val2 first_op (heap s3)) s3)))))"

lemma drain_step_ops:
  "drain_step st = (Inr u, st') \<Longrightarrow> length (ops st') < length (ops st)"
  by (auto simp: drain_step_def pop_value_def pop_op_def push_result_def
           split: list.splits if_splits)

function drain :: "config \<Rightarrow> (py_error + unit) \<times> config" where
  "drain st =
     (if ops st \<noteq> [] then
        (case drain_step st of
           (Inl e, st') \<Rightarrow> (Inl e, st')
         | (Inr u, st') \<Rightarrow> drain st')
      else (Inr (), st))"
  by pat_completeness auto
termination
proof (relation "measure (\<lambda>st. length (ops st))")
  show "wf (measure (\<lambda>st. length (ops st)))" by simp
next
  fix st y :: config and u :: unit and z
  assume "ops st \<noteq> []" and "(z, y) = drain_step st" and "z = Inr u"
  then have "drain_step st = (Inr u, y)" by simp
  from drain_step_ops [OF this]
  show "(y, st) \<in> measure (\<lambda>st. length (ops st))" by simp
qed

text \<open>\<^verbatim>\<open>self.values[-1]\<close> raises \<^verbatim>\<open>IndexError\<close> on an empty list.\<close>

definition top_value :: "config \<Rightarrow> py_error + ref" where
  "top_value st = (case values st of [] \<Rightarrow> Inl IndexError | v # vs \<Rightarrow> Inr v)"

text \<open>\<^verbatim>\<open>evaluate\<close>, run on the evaluator's current stacks: the main pass, the final
  loop, the top of the value stack. The configuration is returned with the result, also
  when an exception is raised, so that the store can be observed afterwards.\<close>

definition evaluate :: "string list \<Rightarrow> inverted_index \<Rightarrow> config \<Rightarrow> (py_error + ref) \<times> config" where
  "evaluate query inverted_index st =
     (case main_pass query inverted_index st of
        (Inl e, s1) \<Rightarrow> (Inl e, s1)
      | (Inr u, s1) \<Rightarrow>
     (case drain s1 of
        (Inl e, s2) \<Rightarrow> (Inl e, s2)
      | (Inr u, s2) \<Rightarrow> (top_value s2, s2)))"

text \<open>The set a query evaluates to, for a new evaluator as \<^verbatim>\<open>main\<close> creates one for
  every query: the contents of the returned set object.\<close>

definition result :: "string list \<Rightarrow> inverted_index \<Rightarrow> heap \<Rightarrow> py_error + doc_id set" where
  "result query inverted_index h =
     (case evaluate query inverted_index (QueryEvaluator_init h) of
        (Inl e, st) \<Rightarrow> Inl e
      | (Inr r, st) \<Rightarrow> Inr (heap st ! r))"

text \<open>The postings a term token resolves to (lines 129 to 132).\<close>

definition postings :: "inverted_index \<Rightarrow> heap \<Rightarrow> string \<Rightarrow> doc_id set" where
  "postings inverted_index h t = (case inverted_index t of None \<Rightarrow> {} | Some r \<Rightarrow> h ! r)"

section \<open>Building the inverted index\<close>

text \<open>
  A Python string is a sequence of characters, of any type \<open>'c\<close> here. The loop of
  \<^verbatim>\<open>populate_inverted_index\<close> classifies a character with \<^verbatim>\<open>str.isnumeric\<close> and
  \<^verbatim>\<open>str.isalpha\<close>, and \<^verbatim>\<open>str.strip\<close> removes the characters of \<^verbatim>\<open>str.isspace\<close>. The
  three tables belong to the Python runtime (its Unicode database) and not to the
  program, so every function that consults them takes them as a parameter.
\<close>

record 'c tables =
  isnumeric :: "'c \<Rightarrow> bool"
  isalpha :: "'c \<Rightarrow> bool"
  isspace :: "'c \<Rightarrow> bool"

text \<open>In Python's tables no numeric or alphabetic character is whitespace.\<close>

definition no_alnum_space :: "'c tables \<Rightarrow> bool" where
  "no_alnum_space u = (\<forall>c. isnumeric u c \<or> isalpha u c \<longrightarrow> \<not> isspace u c)"

text \<open>
  Python's tables on the code points 0 to 255, the characters of Isabelle's
  \<^typ>\<open>char\<close>: numeric are the digits, the superscripts 178, 179 and 185 and the fractions
  188 to 190; alphabetic are the ASCII letters, 170, 181, 186 and the letters 192 to
  255 without 215 and 247; whitespace are 9 to 13, 28 to 32, 133 and 160. The examples
  are evaluated with these tables.
\<close>

definition latin1 :: "char tables" where
  "latin1 =
     \<lparr>isnumeric = (\<lambda>c.
        48 \<le> (of_char c :: nat) \<and> (of_char c :: nat) \<le> 57 \<or>
        178 \<le> (of_char c :: nat) \<and> (of_char c :: nat) \<le> 179 \<or>
        (of_char c :: nat) = 185 \<or>
        188 \<le> (of_char c :: nat) \<and> (of_char c :: nat) \<le> 190),
      isalpha = (\<lambda>c.
        65 \<le> (of_char c :: nat) \<and> (of_char c :: nat) \<le> 90 \<or>
        97 \<le> (of_char c :: nat) \<and> (of_char c :: nat) \<le> 122 \<or>
        (of_char c :: nat) = 170 \<or> (of_char c :: nat) = 181 \<or> (of_char c :: nat) = 186 \<or>
        192 \<le> (of_char c :: nat) \<and> (of_char c :: nat) \<le> 214 \<or>
        216 \<le> (of_char c :: nat) \<and> (of_char c :: nat) \<le> 246 \<or>
        248 \<le> (of_char c :: nat)),
      isspace = (\<lambda>c.
        9 \<le> (of_char c :: nat) \<and> (of_char c :: nat) \<le> 13 \<or>
        28 \<le> (of_char c :: nat) \<and> (of_char c :: nat) \<le> 32 \<or>
        (of_char c :: nat) = 133 \<or> (of_char c :: nat) = 160)\<rparr>"

text \<open>\<^verbatim>\<open>str.strip()\<close>: the string without its leading and trailing whitespace.\<close>

definition strip :: "'c tables \<Rightarrow> 'c list \<Rightarrow> 'c list" where
  "strip u s = rev (dropWhile (isspace u) (rev (dropWhile (isspace u) s)))"

text \<open>
  What the external parser hands over for one \<^verbatim>\<open>DOC\<close> element: the text of its
  \<^verbatim>\<open>DOCID\<close> and, for each of the three tag names, the texts of the elements
  \<^verbatim>\<open>find_all\<close> returns. An element is an option because \<^verbatim>\<open>collect_content\<close> tests
  it against \<^verbatim>\<open>None\<close>. A document identifier is only stored and compared.
\<close>

record 'c document =
  DOCID :: string
  TITLE :: "'c list option list"
  HEADING :: "'c list option list"
  TEXT :: "'c list option list"

fun collect_loop :: "'c list option list \<Rightarrow> 'c list \<Rightarrow> 'c list" where
  "collect_loop [] res = res"
| "collect_loop (elem # container) res =
     (case elem of
        Some text \<Rightarrow> collect_loop container (res @ text)
      | None \<Rightarrow> collect_loop container res)"

definition collect_content :: "'c list option list \<Rightarrow> 'c list" where
  "collect_content container = collect_loop container []"

text \<open>Lines 51 to 56: add the document to the postings set of the term, which is
  created first when the term is not a key yet.\<close>

definition add_posting :: "'k \<Rightarrow> doc_id \<Rightarrow> ('k \<rightharpoonup> ref) \<times> heap \<Rightarrow> ('k \<rightharpoonup> ref) \<times> heap" where
  "add_posting term doc_id ih =
     (case ih of (inverted_index, h) \<Rightarrow>
        (case inverted_index term of
           Some r \<Rightarrow> (inverted_index, h[r := insert doc_id (h ! r)])
         | None \<Rightarrow>
             (case alloc {} h of (r, h') \<Rightarrow>
                (inverted_index(term \<mapsto> r), h'[r := insert doc_id (h' ! r)]))))"

text \<open>The loop over the characters of the content (lines 43 to 58). On a character that
  is neither numeric nor alphabetic, \<^verbatim>\<open>continue\<close> keeps the accumulated term as it is
  when it strips to the empty string; otherwise the term is stored and reset. Nothing
  follows the loop.\<close>

fun populate_loop ::
  "'c tables \<Rightarrow> 'c list \<Rightarrow> 'c list \<Rightarrow> doc_id \<Rightarrow> ('c list \<rightharpoonup> ref) \<times> heap \<Rightarrow> ('c list \<rightharpoonup> ref) \<times> heap" where
  "populate_loop u [] term doc_id ih = ih"
| "populate_loop u (c # content) term doc_id ih =
     (if isnumeric u c \<or> isalpha u c then populate_loop u content (term @ [c]) doc_id ih
      else if strip u term = [] then populate_loop u content term doc_id ih
      else populate_loop u content [] doc_id (add_posting term doc_id ih))"

definition populate_inverted_index ::
  "'c tables \<Rightarrow> 'c document \<Rightarrow> doc_id \<Rightarrow> ('c list \<rightharpoonup> ref) \<times> heap \<Rightarrow> ('c list \<rightharpoonup> ref) \<times> heap" where
  "populate_inverted_index u document doc_id ih =
     populate_loop u
       (collect_content (TITLE document) @ collect_content (HEADING document) @
        collect_content (TEXT document))
       [] doc_id ih"

fun generate_inverted_index ::
  "'c tables \<Rightarrow> 'c document list \<Rightarrow> ('c list \<rightharpoonup> ref) \<times> heap \<Rightarrow> ('c list \<rightharpoonup> ref) \<times> heap" where
  "generate_inverted_index u [] ih = ih"
| "generate_inverted_index u (document # documents) ih =
     generate_inverted_index u documents (populate_inverted_index u document (DOCID document) ih)"

text \<open>\<^verbatim>\<open>InvertedIndex.__init__\<close>, given the directory as the list of its file names, each
  with the \<^verbatim>\<open>DOC\<close> elements the external parser finds in the file: the dictionary starts
  empty, and the file \<^verbatim>\<open>czech.dtd\<close> is skipped.\<close>

fun files_loop ::
  "'c tables \<Rightarrow> (string \<times> 'c document list) list \<Rightarrow> ('c list \<rightharpoonup> ref) \<times> heap \<Rightarrow> ('c list \<rightharpoonup> ref) \<times> heap" where
  "files_loop u [] ih = ih"
| "files_loop u ((filename, documents) # files) ih =
     (if filename = ''czech.dtd'' then files_loop u files ih
      else files_loop u files (generate_inverted_index u documents ih))"

definition InvertedIndex_init ::
  "'c tables \<Rightarrow> (string \<times> 'c document list) list \<Rightarrow> ('c list \<rightharpoonup> ref) \<times> heap" where
  "InvertedIndex_init u files = files_loop u files (Map.empty, [])"

text \<open>The terms the loop stores, in the order in which it stores them: the same loop with
  the store operation replaced by emitting the term.\<close>

fun stored_terms :: "'c tables \<Rightarrow> 'c list \<Rightarrow> 'c list \<Rightarrow> 'c list list" where
  "stored_terms u [] term = []"
| "stored_terms u (c # content) term =
     (if isnumeric u c \<or> isalpha u c then stored_terms u content (term @ [c])
      else if strip u term = [] then stored_terms u content term
      else term # stored_terms u content [])"

text \<open>
  The tokenizer as the specification words it, for comparison with the loop above: scan
  the characters, accumulating consecutive alphanumeric characters into a candidate; on
  any other character, and at the end of the input, emit the candidate if it is not
  empty after trimming, and reset it.
\<close>

fun spec_tokenize_from :: "'c tables \<Rightarrow> 'c list \<Rightarrow> 'c list \<Rightarrow> 'c list list" where
  "spec_tokenize_from u [] candidate = (if strip u candidate = [] then [] else [candidate])"
| "spec_tokenize_from u (c # s) candidate =
     (if isnumeric u c \<or> isalpha u c then spec_tokenize_from u s (candidate @ [c])
      else if strip u candidate = [] then spec_tokenize_from u s []
      else candidate # spec_tokenize_from u s [])"

definition spec_tokenize :: "'c tables \<Rightarrow> 'c list \<Rightarrow> 'c list list" where
  "spec_tokenize u s = spec_tokenize_from u s []"

section \<open>Properties of the evaluator\<close>

declare reduce_while.simps [simp del] drain.simps [simp del]

lemmas eval_defs =
  result_def evaluate_def QueryEvaluator_init_def is_operator_def reduce_while.simps
  drain.simps drain_step_def reduce_step_def pop_value_def pop_op_def push_result_def
  perform_operation_def alloc_def top_value_def precedence_def

text \<open>The index and the postings of the specification's examples: \<^verbatim>\<open>X\<close> occurs in the
  documents 1 and 2, \<^verbatim>\<open>Y\<close> in the documents 2 and 3.\<close>

definition example_index :: inverted_index where
  "example_index = Map.empty(''X'' \<mapsto> 0, ''Y'' \<mapsto> 1)"

definition example_heap :: heap where
  "example_heap = [{''1'', ''2''}, {''2'', ''3''}]"

lemma example_refs_ok: "refs_ok example_index example_heap"
  by (simp add: refs_ok_def example_index_def example_heap_def)

lemma example_postings:
  "postings example_index example_heap ''X'' = {''1'', ''2''}"
  "postings example_index example_heap ''Y'' = {''2'', ''3''}"
  "postings example_index example_heap ''Q'' = {}"
  by (simp_all add: postings_def example_index_def example_heap_def)

lemma example_not_operator:
  "\<not> is_operator ''X''" "\<not> is_operator ''Y''" "\<not> is_operator ''Q''"
  by (simp_all add: is_operator_def)

subsection \<open>The reduction step\<close>

text \<open>
  Claim C4. A reduction step of the main pass pops \<^verbatim>\<open>v1\<close>, then \<^verbatim>\<open>v2\<close>, then the
  operator, and pushes a new set: the intersection of \<^verbatim>\<open>v1\<close> and \<^verbatim>\<open>v2\<close> for \<^verbatim>\<open>AND\<close>,
  their union for \<^verbatim>\<open>OR\<close>, and for any other operator the elements of \<^verbatim>\<open>v2\<close> that are
  not in \<^verbatim>\<open>v1\<close>. Hence, for term tokens \<^verbatim>\<open>X\<close> and \<^verbatim>\<open>Y\<close>, the query \<^verbatim>\<open>X AND Y\<close>
  evaluates to the intersection of their postings and \<^verbatim>\<open>X OR Y\<close> to their union.
\<close>

theorem reduction_step_semantics:
  "reduce_step \<lparr>values = v1 # v2 # vs, ops = op # os, heap = h\<rparr> =
     (Inr (), \<lparr>values = length h # vs, ops = os,
        heap = h @ [if op = ''AND'' then h ! v1 \<inter> h ! v2
                    else if op = ''OR'' then h ! v1 \<union> h ! v2
                    else h ! v2 - h ! v1]\<rparr>) \<and>
   (refs_ok idx h \<longrightarrow> \<not> is_operator X \<longrightarrow> \<not> is_operator Y \<longrightarrow>
      result [X, ''AND'', Y] idx h = Inr (postings idx h X \<inter> postings idx h Y) \<and>
      result [X, ''OR'', Y] idx h = Inr (postings idx h X \<union> postings idx h Y))"
proof (intro conjI impI)
  show "reduce_step \<lparr>values = v1 # v2 # vs, ops = op # os, heap = h\<rparr> =
     (Inr (), \<lparr>values = length h # vs, ops = os,
        heap = h @ [if op = ''AND'' then h ! v1 \<inter> h ! v2
                    else if op = ''OR'' then h ! v1 \<union> h ! v2
                    else h ! v2 - h ! v1]\<rparr>)"
    by (simp add: reduce_step_def pop_value_def pop_op_def push_result_def
        perform_operation_def alloc_def)
next
  assume a: "refs_ok idx h" "\<not> is_operator X" "\<not> is_operator Y"
  then show "result [X, ''AND'', Y] idx h = Inr (postings idx h X \<inter> postings idx h Y)"
    by (auto simp: eval_defs postings_def refs_ok_def nth_append split: option.splits)
  from a show "result [X, ''OR'', Y] idx h = Inr (postings idx h X \<union> postings idx h Y)"
    by (auto simp: eval_defs postings_def refs_ok_def nth_append split: option.splits)
qed

theorem reduction_step_semantics_witness:
  "refs_ok example_index example_heap \<and> \<not> is_operator ''X'' \<and> \<not> is_operator ''Y'' \<and>
   result [''X'', ''AND'', ''Y''] example_index example_heap = Inr {''2''} \<and>
   result [''X'', ''OR'', ''Y''] example_index example_heap = Inr {''1'', ''2'', ''3''}"
proof -
  from reduction_step_semantics
    [where idx = example_index and h = example_heap and X = "''X''" and Y = "''Y''"]
    example_refs_ok example_not_operator
  have "result [''X'', ''AND'', ''Y''] example_index example_heap =
          Inr (postings example_index example_heap ''X'' \<inter> postings example_index example_heap ''Y'')"
    and "result [''X'', ''OR'', ''Y''] example_index example_heap =
          Inr (postings example_index example_heap ''X'' \<union> postings example_index example_heap ''Y'')"
    by blast+
  with example_refs_ok example_not_operator show ?thesis
    by (simp add: example_postings insert_commute)
qed

subsection \<open>Precedence\<close>

lemma operator_token_unfold:
  "is_operator elem \<Longrightarrow> main_pass (elem # query) idx st =
      (if ops st \<noteq> [] \<and> precedence elem \<le> precedence (hd (ops st)) then
         (case reduce_step st of
            (Inl e, st') \<Rightarrow> (Inl e, st')
          | (Inr u, st') \<Rightarrow> main_pass (elem # query) idx st')
       else main_pass query idx (st\<lparr>ops := elem # ops st\<rparr>))"
  by (subst main_pass.simps, subst reduce_while.simps)
     (auto simp: reduce_while.simps split: prod.splits sum.splits)

text \<open>
  Claim C3. \<^verbatim>\<open>AND\<close> and \<^verbatim>\<open>OR\<close> have precedence 1 and \<^verbatim>\<open>NOT\<close> has precedence 2. On an
  operator token the main pass reduces as long as the operator stack is not empty and
  the precedence of its top is at least the precedence of the token, and then pushes the
  token. For term tokens \<^verbatim>\<open>X\<close>, \<^verbatim>\<open>Y\<close> and \<^verbatim>\<open>Z\<close>, when the main pass has consumed
  \<^verbatim>\<open>X AND Y OR\<close> the \<^verbatim>\<open>AND\<close> is reduced already, and \<^verbatim>\<open>X AND Y OR Z\<close> evaluates to
  the union of the postings of \<^verbatim>\<open>Z\<close> with the intersection of those of \<^verbatim>\<open>X\<close> and
  \<^verbatim>\<open>Y\<close>.
\<close>

theorem precedence_eager_reduction:
  "precedence ''AND'' = 1 \<and> precedence ''OR'' = 1 \<and> precedence ''NOT'' = 2 \<and>
   (is_operator elem \<longrightarrow>
      main_pass (elem # query) idx st =
        (if ops st \<noteq> [] \<and> precedence elem \<le> precedence (hd (ops st)) then
           (case reduce_step st of
              (Inl e, st') \<Rightarrow> (Inl e, st')
            | (Inr u, st') \<Rightarrow> main_pass (elem # query) idx st')
         else main_pass query idx (st\<lparr>ops := elem # ops st\<rparr>))) \<and>
   (refs_ok idx h \<longrightarrow> \<not> is_operator X \<longrightarrow> \<not> is_operator Y \<longrightarrow> \<not> is_operator Z \<longrightarrow>
      (\<exists>st'. main_pass [X, ''AND'', Y, ''OR''] idx (QueryEvaluator_init h) = (Inr (), st') \<and>
         ops st' = [''OR''] \<and>
         map (\<lambda>r. heap st' ! r) (values st') = [postings idx h X \<inter> postings idx h Y]) \<and>
      result [X, ''AND'', Y, ''OR'', Z] idx h =
        Inr ((postings idx h X \<inter> postings idx h Y) \<union> postings idx h Z))"
proof (intro conjI impI)
  show "precedence ''AND'' = 1" "precedence ''OR'' = 1" "precedence ''NOT'' = 2"
    by (simp_all add: precedence_def)
next
  assume "is_operator elem"
  then show "main_pass (elem # query) idx st =
        (if ops st \<noteq> [] \<and> precedence elem \<le> precedence (hd (ops st)) then
           (case reduce_step st of
              (Inl e, st') \<Rightarrow> (Inl e, st')
            | (Inr u, st') \<Rightarrow> main_pass (elem # query) idx st')
         else main_pass query idx (st\<lparr>ops := elem # ops st\<rparr>))"
    by (rule operator_token_unfold)
next
  assume a: "refs_ok idx h" "\<not> is_operator X" "\<not> is_operator Y" "\<not> is_operator Z"
  then show "\<exists>st'. main_pass [X, ''AND'', Y, ''OR''] idx (QueryEvaluator_init h) = (Inr (), st') \<and>
         ops st' = [''OR''] \<and>
         map (\<lambda>r. heap st' ! r) (values st') = [postings idx h X \<inter> postings idx h Y]"
    by (auto simp: eval_defs postings_def refs_ok_def nth_append split: option.splits)
  from a show "result [X, ''AND'', Y, ''OR'', Z] idx h =
        Inr ((postings idx h X \<inter> postings idx h Y) \<union> postings idx h Z)"
    by (auto simp: eval_defs postings_def refs_ok_def nth_append split: option.splits)
qed

theorem precedence_eager_reduction_witness:
  "is_operator ''OR'' \<and>
   main_pass [''OR''] example_index \<lparr>values = [1, 0], ops = [''AND''], heap = example_heap\<rparr> =
     (Inr (), \<lparr>values = [2], ops = [''OR''], heap = example_heap @ [{''2''}]\<rparr>) \<and>
   refs_ok example_index example_heap \<and>
   \<not> is_operator ''X'' \<and> \<not> is_operator ''Y'' \<and> \<not> is_operator ''Q'' \<and>
   result [''X'', ''AND'', ''Y'', ''OR'', ''Q''] example_index example_heap = Inr {''2''}"
proof -
  have op: "is_operator ''OR''" by (simp add: is_operator_def)
  note inst = precedence_eager_reduction
    [where idx = example_index and h = example_heap and X = "''X''" and Y = "''Y''"
       and Z = "''Q''" and elem = "''OR''"]
  from inst [where query = "[]" and st = "\<lparr>values = [1, 0], ops = [''AND''], heap = example_heap\<rparr>"] op
  have "main_pass [''OR''] example_index \<lparr>values = [1, 0], ops = [''AND''], heap = example_heap\<rparr> =
     (case reduce_step \<lparr>values = [1, 0], ops = [''AND''], heap = example_heap\<rparr> of
              (Inl e, st') \<Rightarrow> (Inl e, st')
            | (Inr u, st') \<Rightarrow> main_pass [''OR''] example_index st')"
    by (simp add: precedence_def)
  also have "\<dots> = (Inr (), \<lparr>values = [2], ops = [''OR''], heap = example_heap @ [{''2''}]\<rparr>)"
    by (simp add: eval_defs example_heap_def)
  finally have 1: "main_pass [''OR''] example_index \<lparr>values = [1, 0], ops = [''AND''], heap = example_heap\<rparr> =
     (Inr (), \<lparr>values = [2], ops = [''OR''], heap = example_heap @ [{''2''}]\<rparr>)" .
  from inst [where query = "[]" and st = "QueryEvaluator_init []"]
    example_refs_ok example_not_operator
  have "result [''X'', ''AND'', ''Y'', ''OR'', ''Q''] example_index example_heap =
      Inr ((postings example_index example_heap ''X'' \<inter> postings example_index example_heap ''Y'')
        \<union> postings example_index example_heap ''Q'')"
    by blast
  then have 2: "result [''X'', ''AND'', ''Y'', ''OR'', ''Q''] example_index example_heap = Inr {''2''}"
    by (simp add: example_postings)
  from op 1 2 example_refs_ok example_not_operator show ?thesis by simp
qed

subsection \<open>The final loop\<close>

lemma drain_NOT:
  "drain \<lparr>values = v1 # v2 # vs, ops = ''NOT'' # discarded # os, heap = h\<rparr> =
   drain \<lparr>values = length h # vs, ops = os, heap = h @ [h ! v2 - h ! v1]\<rparr>"
  by (subst drain.simps)
     (simp add: drain_step_def pop_value_def pop_op_def push_result_def
        perform_operation_def alloc_def)

lemma drain_AND:
  "drain \<lparr>values = v1 # v2 # vs, ops = ''AND'' # os, heap = h\<rparr> =
   drain \<lparr>values = length h # vs, ops = os, heap = h @ [h ! v1 \<inter> h ! v2]\<rparr>"
  by (subst drain.simps)
     (simp add: drain_step_def pop_value_def pop_op_def push_result_def
        perform_operation_def alloc_def)

lemma drain_OR:
  "drain \<lparr>values = v1 # v2 # vs, ops = ''OR'' # os, heap = h\<rparr> =
   drain \<lparr>values = length h # vs, ops = os, heap = h @ [h ! v1 \<union> h ! v2]\<rparr>"
  by (subst drain.simps)
     (simp add: drain_step_def pop_value_def pop_op_def push_result_def
        perform_operation_def alloc_def)

lemma drain_empty:
  "drain \<lparr>values = vs, ops = [], heap = h\<rparr> = (Inr (), \<lparr>values = vs, ops = [], heap = h\<rparr>)"
  by (simp add: drain.simps)

text \<open>
  Claim C2. The final loop runs while the operator stack is not empty (on an empty
  operator stack it leaves the configuration as it is). Each round pops the operator
  \<^verbatim>\<open>first_op\<close> and the values \<^verbatim>\<open>v1\<close>, then \<^verbatim>\<open>v2\<close>. For \<^verbatim>\<open>NOT\<close> it pops and discards
  exactly one more operator and pushes the difference of \<^verbatim>\<open>v2\<close> and \<^verbatim>\<open>v1\<close>; for
  \<^verbatim>\<open>AND\<close> and \<^verbatim>\<open>OR\<close> it pushes the intersection and the union. For term tokens \<^verbatim>\<open>A\<close>
  and \<^verbatim>\<open>B\<close>, the query \<^verbatim>\<open>A AND NOT B\<close> evaluates to the postings of \<^verbatim>\<open>A\<close> without
  those of \<^verbatim>\<open>B\<close>.
\<close>

theorem final_drain_NOT:
  "drain \<lparr>values = vs, ops = [], heap = h\<rparr> = (Inr (), \<lparr>values = vs, ops = [], heap = h\<rparr>) \<and>
   drain \<lparr>values = v1 # v2 # vs, ops = ''NOT'' # discarded # os, heap = h\<rparr> =
     drain \<lparr>values = length h # vs, ops = os, heap = h @ [h ! v2 - h ! v1]\<rparr> \<and>
   drain \<lparr>values = v1 # v2 # vs, ops = ''AND'' # os, heap = h\<rparr> =
     drain \<lparr>values = length h # vs, ops = os, heap = h @ [h ! v1 \<inter> h ! v2]\<rparr> \<and>
   drain \<lparr>values = v1 # v2 # vs, ops = ''OR'' # os, heap = h\<rparr> =
     drain \<lparr>values = length h # vs, ops = os, heap = h @ [h ! v1 \<union> h ! v2]\<rparr> \<and>
   (refs_ok idx h \<longrightarrow> \<not> is_operator A \<longrightarrow> \<not> is_operator B \<longrightarrow>
      result [A, ''AND'', ''NOT'', B] idx h = Inr (postings idx h A - postings idx h B))"
proof (intro conjI impI)
  assume "refs_ok idx h" "\<not> is_operator A" "\<not> is_operator B"
  then show "result [A, ''AND'', ''NOT'', B] idx h = Inr (postings idx h A - postings idx h B)"
    by (auto simp: eval_defs postings_def refs_ok_def nth_append split: option.splits)
qed (rule drain_empty drain_NOT drain_AND drain_OR)+

theorem final_drain_NOT_witness:
  "refs_ok example_index example_heap \<and> \<not> is_operator ''X'' \<and> \<not> is_operator ''Y'' \<and>
   result [''X'', ''AND'', ''NOT'', ''Y''] example_index example_heap = Inr {''1''}"
proof -
  from final_drain_NOT
    [where idx = example_index and h = example_heap and A = "''X''" and B = "''Y''"]
    example_refs_ok example_not_operator
  have "result [''X'', ''AND'', ''NOT'', ''Y''] example_index example_heap =
          Inr (postings example_index example_heap ''X'' - postings example_index example_heap ''Y'')"
    by blast
  moreover have "postings example_index example_heap ''X'' - postings example_index example_heap ''Y''
      = {''1''}"
    by (auto simp: example_postings)
  ultimately show ?thesis
    using example_refs_ok example_not_operator by simp
qed

subsection \<open>Term tokens\<close>

text \<open>
  Claim C7. A token that is not an operator and is a key of the dictionary pushes the
  dictionary's postings set; one that is not a key pushes a new empty set; in both cases
  the main pass goes on with the next token, without raising. For term tokens \<^verbatim>\<open>Q\<close> and
  \<^verbatim>\<open>X\<close> with \<^verbatim>\<open>Q\<close> not a key, \<^verbatim>\<open>Q AND X\<close> evaluates to the empty set.
\<close>

theorem unknown_term_resolution:
  "(\<not> is_operator t \<longrightarrow> idx t = Some r \<longrightarrow>
      main_pass (t # query) idx st = main_pass query idx (st\<lparr>values := r # values st\<rparr>) \<and>
      heap st ! r = postings idx (heap st) t) \<and>
   (\<not> is_operator t \<longrightarrow> idx t = None \<longrightarrow>
      main_pass (t # query) idx st =
        main_pass query idx
          (st\<lparr>values := length (heap st) # values st, heap := heap st @ [{}]\<rparr>) \<and>
      postings idx (heap st) t = {}) \<and>
   (refs_ok idx h \<longrightarrow> \<not> is_operator Q \<longrightarrow> \<not> is_operator X \<longrightarrow> idx Q = None \<longrightarrow>
      result [Q, ''AND'', X] idx h = Inr {})"
proof (intro conjI impI)
  assume "refs_ok idx h" "\<not> is_operator Q" "\<not> is_operator X" "idx Q = None"
  then show "result [Q, ''AND'', X] idx h = Inr {}"
    by (auto simp: eval_defs postings_def refs_ok_def nth_append split: option.splits)
qed (simp_all add: push_result_def alloc_def postings_def)

theorem unknown_term_resolution_witness:
  "\<not> is_operator ''X'' \<and> example_index ''X'' = Some 0 \<and>
   main_pass [''X''] example_index (QueryEvaluator_init example_heap) =
     (Inr (), \<lparr>values = [0], ops = [], heap = example_heap\<rparr>) \<and>
   \<not> is_operator ''Q'' \<and> example_index ''Q'' = None \<and>
   main_pass [''Q''] example_index (QueryEvaluator_init example_heap) =
     (Inr (), \<lparr>values = [2], ops = [], heap = example_heap @ [{}]\<rparr>) \<and>
   refs_ok example_index example_heap \<and>
   result [''Q'', ''AND'', ''X''] example_index example_heap = Inr {}"
proof -
  note inst = unknown_term_resolution [where idx = example_index and query = "[]"
      and st = "QueryEvaluator_init example_heap" and h = example_heap]
  have x: "example_index ''X'' = Some 0" and q: "example_index ''Q'' = None"
    by (simp_all add: example_index_def)
  from inst [where t = "''X''" and r = 0] example_not_operator x
  have 1: "main_pass [''X''] example_index (QueryEvaluator_init example_heap) =
     (Inr (), \<lparr>values = [0], ops = [], heap = example_heap\<rparr>)"
    by (simp add: QueryEvaluator_init_def)
  from inst [where t = "''Q''"] example_not_operator q
  have 2: "main_pass [''Q''] example_index (QueryEvaluator_init example_heap) =
     (Inr (), \<lparr>values = [2], ops = [], heap = example_heap @ [{}]\<rparr>)"
    by (simp add: QueryEvaluator_init_def example_heap_def)
  from inst [where Q = "''Q''" and X = "''X''"] example_refs_ok example_not_operator q
  have 3: "result [''Q'', ''AND'', ''X''] example_index example_heap = Inr {}"
    by blast
  from 1 2 3 x q example_refs_ok example_not_operator show ?thesis by simp
qed

subsection \<open>The store only grows\<close>

lemma reduce_step_heap: "\<exists>new. heap (snd (reduce_step st)) = heap st @ new"
  by (auto simp: reduce_step_def pop_value_def pop_op_def push_result_def
        perform_operation_def alloc_def split: list.splits)

lemma drain_step_heap: "\<exists>new. heap (snd (drain_step st)) = heap st @ new"
  by (auto simp: drain_step_def pop_value_def pop_op_def push_result_def
        perform_operation_def alloc_def split: list.splits)

lemma reduce_while_heap: "\<exists>new. heap (snd (reduce_while elem st)) = heap st @ new"
proof (induction elem st rule: reduce_while.induct)
  case (1 elem st)
  show ?case
  proof (cases "ops st \<noteq> [] \<and> precedence elem \<le> precedence (hd (ops st))")
    case False
    then show ?thesis by (subst reduce_while.simps) auto
  next
    case True
    obtain x y where r: "reduce_step st = (x, y)" by fastforce
    obtain n1 where n1: "heap y = heap st @ n1"
      using reduce_step_heap [of st] r by auto
    show ?thesis
    proof (cases x)
      case (Inl e)
      with True r n1 show ?thesis by (subst reduce_while.simps) simp
    next
      case (Inr u)
      from "1" [OF True r [symmetric] Inr]
      obtain n2 where "heap (snd (reduce_while elem y)) = heap y @ n2" by blast
      with True r n1 Inr show ?thesis by (subst reduce_while.simps) simp
    qed
  qed
qed

lemma drain_heap: "\<exists>new. heap (snd (drain st)) = heap st @ new"
proof (induction st rule: drain.induct)
  case (1 st)
  show ?case
  proof (cases "ops st \<noteq> []")
    case False
    then show ?thesis by (subst drain.simps) auto
  next
    case True
    obtain x y where r: "drain_step st = (x, y)" by fastforce
    obtain n1 where n1: "heap y = heap st @ n1"
      using drain_step_heap [of st] r by auto
    show ?thesis
    proof (cases x)
      case (Inl e)
      with True r n1 show ?thesis by (subst drain.simps) simp
    next
      case (Inr u)
      from "1" [OF True r [symmetric] Inr]
      obtain n2 where "heap (snd (drain y)) = heap y @ n2" by blast
      with True r n1 Inr show ?thesis by (subst drain.simps) simp
    qed
  qed
qed

lemma main_pass_heap: "\<exists>new. heap (snd (main_pass query idx st)) = heap st @ new"
proof (induction query arbitrary: st)
  case Nil
  show ?case by simp
next
  case (Cons elem query)
  show ?case
  proof (cases "is_operator elem")
    case True
    obtain x y where r: "reduce_while elem st = (x, y)" by fastforce
    obtain n1 where n1: "heap y = heap st @ n1"
      using reduce_while_heap [of elem st] r by auto
    show ?thesis
    proof (cases x)
      case (Inl e)
      with True r n1 show ?thesis by simp
    next
      case (Inr u)
      from Cons.IH [of "y\<lparr>ops := elem # ops y\<rparr>"]
      obtain n2 where "heap (snd (main_pass query idx (y\<lparr>ops := elem # ops y\<rparr>))) = heap y @ n2"
        by auto
      with True r n1 Inr show ?thesis by simp
    qed
  next
    case False
    show ?thesis
    proof (cases "idx elem")
      case None
      from Cons.IH [of "push_result (alloc {} (heap st)) st"]
      obtain n2 where "heap (snd (main_pass query idx (push_result (alloc {} (heap st)) st))) =
          heap st @ [{}] @ n2"
        by (auto simp: push_result_def alloc_def)
      with False None show ?thesis by simp
    next
      case (Some r)
      from Cons.IH [of "st\<lparr>values := r # values st\<rparr>"] False Some show ?thesis by simp
    qed
  qed
qed

lemma evaluate_heap: "\<exists>new. heap (snd (evaluate query idx st)) = heap st @ new"
proof -
  obtain x y where m: "main_pass query idx st = (x, y)" by fastforce
  obtain n1 where n1: "heap y = heap st @ n1"
    using main_pass_heap [of query idx st] m by auto
  show ?thesis
  proof (cases x)
    case (Inl e)
    with m n1 show ?thesis by (simp add: evaluate_def)
  next
    case (Inr u)
    obtain x' y' where d: "drain y = (x', y')" by fastforce
    obtain n2 where n2: "heap y' = heap y @ n2"
      using drain_heap [of y] d by auto
    from m n1 Inr d n2 show ?thesis
      by (cases x') (simp_all add: evaluate_def)
  qed
qed

lemma entry_append: "refs_ok idx h \<Longrightarrow> entry idx (h @ new) = entry idx h"
  by (auto simp: entry_def refs_ok_def nth_append fun_eq_iff split: option.splits)

text \<open>
  Claim C9. Whatever the token stream and the evaluator's stacks, and whether
  \<^verbatim>\<open>evaluate\<close> returns or raises, the store afterwards is the store before with new set
  objects appended: no set object that existed before is changed. In particular every
  postings set of the dictionary is unchanged. Every call of \<^verbatim>\<open>perform_operation\<close>
  returns the address of a new set object.
\<close>

theorem evaluate_frame:
  "(\<exists>new. heap (snd (evaluate query idx st)) = heap st @ new) \<and>
   (refs_ok idx (heap st) \<longrightarrow>
      entry idx (heap (snd (evaluate query idx st))) = entry idx (heap st)) \<and>
   fst (perform_operation posting1 posting2 op h) = length h \<and>
   (\<exists>s. snd (perform_operation posting1 posting2 op h) = h @ [s])"
proof (intro conjI impI)
  show "\<exists>new. heap (snd (evaluate query idx st)) = heap st @ new"
    by (rule evaluate_heap)
next
  assume r: "refs_ok idx (heap st)"
  from evaluate_heap [of query idx st]
  obtain new where "heap (snd (evaluate query idx st)) = heap st @ new" by blast
  with r show "entry idx (heap (snd (evaluate query idx st))) = entry idx (heap st)"
    by (simp add: entry_append)
next
  show "fst (perform_operation posting1 posting2 op h) = length h"
    by (simp add: perform_operation_def alloc_def)
  show "\<exists>s. snd (perform_operation posting1 posting2 op h) = h @ [s]"
    by (simp add: perform_operation_def alloc_def)
qed

theorem evaluate_frame_witness:
  "refs_ok example_index (heap (QueryEvaluator_init example_heap)) \<and>
   evaluate [''X'', ''AND'', ''NOT'', ''Y'', ''AND'', ''X''] example_index
       (QueryEvaluator_init example_heap) =
     (Inl IndexError, \<lparr>values = [], ops = [''AND''], heap = example_heap @ [{''1''}]\<rparr>) \<and>
   entry example_index
       (heap (snd (evaluate [''X'', ''AND'', ''NOT'', ''Y'', ''AND'', ''X''] example_index
          (QueryEvaluator_init example_heap)))) =
     entry example_index example_heap"
proof -
  have r: "refs_ok example_index (heap (QueryEvaluator_init example_heap))"
    using example_refs_ok by (simp add: QueryEvaluator_init_def)
  have d: "{''1'', ''2''} - {''2'', ''3''} = {''1'' :: string}" by auto
  have e: "evaluate [''X'', ''AND'', ''NOT'', ''Y'', ''AND'', ''X''] example_index
       (QueryEvaluator_init example_heap) =
     (Inl IndexError, \<lparr>values = [], ops = [''AND''], heap = example_heap @ [{''1''}]\<rparr>)"
    by (simp add: eval_defs example_index_def example_heap_def d)
  from evaluate_frame [where idx = example_index
      and st = "QueryEvaluator_init example_heap"
      and query = "[''X'', ''AND'', ''NOT'', ''Y'', ''AND'', ''X'']"] r
  have "entry example_index
       (heap (snd (evaluate [''X'', ''AND'', ''NOT'', ''Y'', ''AND'', ''X''] example_index
          (QueryEvaluator_init example_heap)))) =
     entry example_index (heap (QueryEvaluator_init example_heap))"
    by blast
  with r e show ?thesis by (simp add: QueryEvaluator_init_def)
qed

subsection \<open>Counting values and operators\<close>

lemma reduce_while_stop:
  "ops st = [] \<or> \<not> precedence elem \<le> precedence (hd (ops st)) \<Longrightarrow>
   reduce_while elem st = (Inr (), st)"
  by (subst reduce_while.simps) auto

lemma reduce_while_step:
  "ops st \<noteq> [] \<Longrightarrow> precedence elem \<le> precedence (hd (ops st)) \<Longrightarrow>
   reduce_while elem st =
     (case reduce_step st of (Inl e, st') \<Rightarrow> (Inl e, st') | (Inr u, st') \<Rightarrow> reduce_while elem st')"
  by (subst reduce_while.simps) simp

lemma drain_stop: "ops st = [] \<Longrightarrow> drain st = (Inr (), st)"
  by (subst drain.simps) simp

lemma drain_step_unfold:
  "ops st \<noteq> [] \<Longrightarrow>
   drain st = (case drain_step st of (Inl e, st') \<Rightarrow> (Inl e, st') | (Inr u, st') \<Rightarrow> drain st')"
  by (subst drain.simps) simp

text \<open>Successful steps, counted.\<close>

lemma reduce_step_count:
  "reduce_step st = (Inr u, st') \<Longrightarrow>
   length (values st') + 1 = length (values st) \<and> length (ops st') + 1 = length (ops st) \<and>
   set (ops st') \<subseteq> set (ops st)"
  by (auto simp: reduce_step_def pop_value_def pop_op_def push_result_def split: list.splits)

lemma drain_step_count:
  "drain_step st = (Inr u, st') \<Longrightarrow>
   length (values st') + 1 = length (values st) \<and>
   length (ops st') < length (ops st) \<and> length (ops st) \<le> length (ops st') + 2 \<and>
   set (ops st') \<subseteq> set (ops st) \<and>
   (''NOT'' \<notin> set (ops st) \<longrightarrow> length (ops st') + 1 = length (ops st))"
  by (auto simp: drain_step_def pop_value_def pop_op_def push_result_def
      split: list.splits if_splits)

lemma reduce_while_count:
  "reduce_while elem st = (Inr u, st') \<Longrightarrow>
   length (values st') + length (ops st) = length (values st) + length (ops st') \<and>
   length (ops st') \<le> length (ops st) \<and> set (ops st') \<subseteq> set (ops st)"
proof (induction elem st rule: reduce_while.induct)
  case (1 elem st)
  show ?case
  proof (cases "ops st \<noteq> [] \<and> precedence elem \<le> precedence (hd (ops st))")
    case False
    with "1.prems" show ?thesis by (simp add: reduce_while_stop)
  next
    case True
    obtain x y where r: "reduce_step st = (x, y)" by fastforce
    show ?thesis
    proof (cases x)
      case (Inl e)
      with True r "1.prems" show ?thesis by (simp add: reduce_while_step)
    next
      case (Inr v)
      with True r "1.prems" have "reduce_while elem y = (Inr u, st')"
        by (simp add: reduce_while_step)
      from "1.IH" [OF True r [symmetric] Inr this] reduce_step_count [of st v y] r Inr
      show ?thesis by auto
    qed
  qed
qed

lemma drain_count:
  "drain st = (Inr u, st') \<Longrightarrow>
   ops st' = [] \<and> 2 * length (values st') + length (ops st) \<le> 2 * length (values st) \<and>
   (''NOT'' \<notin> set (ops st) \<longrightarrow> length (values st') + length (ops st) = length (values st))"
proof (induction st rule: drain.induct)
  case (1 st)
  show ?case
  proof (cases "ops st \<noteq> []")
    case False
    with "1.prems" show ?thesis by (simp add: drain_stop)
  next
    case True
    obtain x y where r: "drain_step st = (x, y)" by fastforce
    show ?thesis
    proof (cases x)
      case (Inl e)
      with True r "1.prems" show ?thesis by (simp add: drain_step_unfold)
    next
      case (Inr v)
      with True r "1.prems" have "drain y = (Inr u, st')"
        by (simp add: drain_step_unfold)
      from "1.IH" [OF True r [symmetric] Inr this] drain_step_count [of st v y] r Inr
      show ?thesis by auto
    qed
  qed
qed

lemma main_pass_count:
  "main_pass query idx st = (Inr u, st') \<Longrightarrow>
   length (values st') + length (ops st) + length (filter is_operator query) =
     length (values st) + length (filter (\<lambda>t. \<not> is_operator t) query) + length (ops st') \<and>
   length (ops st') \<le> length (ops st) + length (filter is_operator query) \<and>
   set (ops st') \<subseteq> set (ops st) \<union> set (filter is_operator query)"
proof (induction query arbitrary: st)
  case Nil
  then show ?case by simp
next
  case (Cons elem query)
  show ?case
  proof (cases "is_operator elem")
    case True
    obtain x y where r: "reduce_while elem st = (x, y)" by fastforce
    show ?thesis
    proof (cases x)
      case (Inl e)
      with True r Cons.prems show ?thesis by simp
    next
      case (Inr v)
      with True r Cons.prems
      have "main_pass query idx (y\<lparr>ops := elem # ops y\<rparr>) = (Inr u, st')" by simp
      from Cons.IH [OF this] reduce_while_count [of elem st v y] r Inr True
      show ?thesis by auto
    qed
  next
    case False
    show ?thesis
    proof (cases "idx elem")
      case None
      with False Cons.prems
      have "main_pass query idx (push_result (alloc {} (heap st)) st) = (Inr u, st')" by simp
      from Cons.IH [OF this] False show ?thesis by (auto simp: push_result_def)
    next
      case (Some r)
      with False Cons.prems
      have "main_pass query idx (st\<lparr>values := r # values st\<rparr>) = (Inr u, st')" by simp
      from Cons.IH [OF this] False show ?thesis by auto
    qed
  qed
qed

lemma evaluate_success:
  assumes "evaluate query idx st = (Inr r, st')"
  shows "\<exists>s1. main_pass query idx st = (Inr (), s1) \<and> drain s1 = (Inr (), st') \<and>
     ops st' = [] \<and> values st' \<noteq> [] \<and> r = hd (values st')"
proof -
  obtain x s1 where m: "main_pass query idx st = (x, s1)" by fastforce
  with assms obtain u where x: "x = Inr u" by (cases x) (auto simp: evaluate_def)
  obtain x' s2 where d: "drain s1 = (x', s2)" by fastforce
  with assms m x obtain u' where x': "x' = Inr u'" by (cases x') (auto simp: evaluate_def)
  from assms m x d x' have t: "top_value s2 = Inr r" and s: "s2 = st'"
    by (auto simp: evaluate_def)
  from t have "values s2 \<noteq> []" "r = hd (values s2)"
    by (auto simp: top_value_def split: list.splits)
  moreover from drain_count [of s1 u' s2] d x' have "ops s2 = []" by simp
  ultimately show ?thesis using m x d x' s by auto
qed

lemma evaluate_success_count:
  assumes "evaluate query idx (QueryEvaluator_init h) = (Inr r, st')"
  shows "length (filter is_operator query) + 2 \<le> 2 * length (filter (\<lambda>t. \<not> is_operator t) query)"
    and "''NOT'' \<notin> set query \<Longrightarrow>
      length (values st') + length (filter is_operator query) =
        length (filter (\<lambda>t. \<not> is_operator t) query)"
proof -
  from evaluate_success [OF assms] obtain s1 where
    m: "main_pass query idx (QueryEvaluator_init h) = (Inr (), s1)" and
    d: "drain s1 = (Inr (), st')" and v: "values st' \<noteq> []"
    by blast
  from v have v1: "1 \<le> length (values st')" by (cases "values st'") auto
  note mc = main_pass_count [OF m]
  note dc = drain_count [OF d]
  from mc dc v1
  show "length (filter is_operator query) + 2 \<le> 2 * length (filter (\<lambda>t. \<not> is_operator t) query)"
    by (simp add: QueryEvaluator_init_def)
  assume "''NOT'' \<notin> set query"
  with mc have "''NOT'' \<notin> set (ops s1)" by (auto simp: QueryEvaluator_init_def)
  with mc dc show "length (values st') + length (filter is_operator query) =
        length (filter (\<lambda>t. \<not> is_operator t) query)"
    by (simp add: QueryEvaluator_init_def)
qed

subsection \<open>Token streams without operators\<close>

lemma postings_append: "refs_ok idx h \<Longrightarrow> postings idx (h @ new) = postings idx h"
  by (auto simp: postings_def refs_ok_def nth_append fun_eq_iff split: option.splits)

lemma refs_ok_append: "refs_ok idx h \<Longrightarrow> refs_ok idx (h @ new)"
  by (fastforce simp: refs_ok_def)

lemma main_pass_terms:
  assumes "\<forall>t\<in>set query. \<not> is_operator t" and "refs_ok idx (heap st)"
    and "\<forall>v\<in>set (values st). v < length (heap st)"
  shows "\<exists>st'. main_pass query idx st = (Inr (), st') \<and> ops st' = ops st \<and>
     (\<exists>new. heap st' = heap st @ new) \<and>
     map (\<lambda>v. heap st' ! v) (values st') =
       rev (map (postings idx (heap st)) query) @ map (\<lambda>v. heap st ! v) (values st)"
  using assms
proof (induction query arbitrary: st)
  case Nil
  then show ?case by simp
next
  case (Cons t query)
  from Cons.prems have t: "\<not> is_operator t" and q: "\<forall>t\<in>set query. \<not> is_operator t" by simp_all
  show ?case
  proof (cases "idx t")
    case (Some r)
    let ?s1 = "st\<lparr>values := r # values st\<rparr>"
    from Some Cons.prems have r: "r < length (heap st)" by (auto simp: refs_ok_def)
    with Cons.prems have "refs_ok idx (heap ?s1)" "\<forall>v\<in>set (values ?s1). v < length (heap ?s1)"
      by simp_all
    from Cons.IH [OF q this] obtain st' where
      "main_pass query idx ?s1 = (Inr (), st')" "ops st' = ops st"
      "\<exists>new. heap st' = heap st @ new"
      "map (\<lambda>v. heap st' ! v) (values st') =
         rev (map (postings idx (heap st)) query) @ map (\<lambda>v. heap st ! v) (r # values st)"
      by auto
    with t Some show ?thesis by (simp add: postings_def)
  next
    case None
    let ?h1 = "heap st @ [{}]"
    let ?s1 = "st\<lparr>values := length (heap st) # values st, heap := ?h1\<rparr>"
    from Cons.prems have ok: "refs_ok idx (heap ?s1)"
      by (simp add: refs_ok_append)
    from Cons.prems have "\<forall>v\<in>set (values ?s1). v < length (heap ?s1)" by auto
    from Cons.IH [OF q ok this] obtain st' new where st':
      "main_pass query idx ?s1 = (Inr (), st')" "ops st' = ops st"
      "heap st' = ?h1 @ new"
      "map (\<lambda>v. heap st' ! v) (values st') =
         rev (map (postings idx ?h1) query) @ map (\<lambda>v. ?h1 ! v) (length (heap st) # values st)"
      by auto
    from Cons.prems have same: "map (\<lambda>v. ?h1 ! v) (values st) = map (\<lambda>v. heap st ! v) (values st)"
      by (auto simp: nth_append)
    from Cons.prems have p: "postings idx ?h1 = postings idx (heap st)"
      by (simp add: postings_append)
    from None have e: "postings idx (heap st) t = {}" by (simp add: postings_def)
    from t None st' same p e show ?thesis
      by (simp add: push_result_def alloc_def)
  qed
qed

text \<open>
  Claim C10. For a new evaluator and a non-empty token stream without operator tokens,
  \<^verbatim>\<open>evaluate\<close> raises nothing: the main pass ends with an empty operator stack, the final
  loop leaves the configuration as it is, the postings of every token are on the value
  stack (those of the last token on top), and the postings of the last token are
  returned.
\<close>

theorem terms_only_no_failure:
  assumes "query \<noteq> []" and "\<forall>t\<in>set query. \<not> is_operator t" and "refs_ok idx h"
  shows "\<exists>st. main_pass query idx (QueryEvaluator_init h) = (Inr (), st) \<and>
     ops st = [] \<and> drain st = (Inr (), st) \<and>
     evaluate query idx (QueryEvaluator_init h) = (Inr (hd (values st)), st) \<and>
     map (\<lambda>v. heap st ! v) (values st) = rev (map (postings idx h) query) \<and>
     result query idx h = Inr (postings idx h (last query))"
proof -
  from main_pass_terms [of query idx "QueryEvaluator_init h"] assms
  obtain st where st: "main_pass query idx (QueryEvaluator_init h) = (Inr (), st)"
    "ops st = []"
    "map (\<lambda>v. heap st ! v) (values st) = rev (map (postings idx h) query)"
    by (auto simp: QueryEvaluator_init_def)
  from st(2) have d: "drain st = (Inr (), st)" by (rule drain_stop)
  from st(3) assms(1) obtain v vs where v: "values st = v # vs"
    by (cases "values st") auto
  from st(3) have "hd (map (\<lambda>v. heap st ! v) (values st)) = hd (rev (map (postings idx h) query))"
    by simp
  with v assms(1) have l: "heap st ! v = postings idx h (last query)"
    by (simp add: hd_rev last_map)
  from st d v have e: "evaluate query idx (QueryEvaluator_init h) = (Inr (hd (values st)), st)"
    by (simp add: evaluate_def top_value_def)
  with v l have "result query idx h = Inr (postings idx h (last query))"
    by (simp add: result_def)
  with st d e show ?thesis by blast
qed

theorem terms_only_no_failure_witness:
  "[''X'', ''Y''] \<noteq> [] \<and> \<not> is_operator ''X'' \<and> \<not> is_operator ''Y'' \<and>
   refs_ok example_index example_heap \<and>
   evaluate [''X'', ''Y''] example_index (QueryEvaluator_init example_heap) =
     (Inr 1, \<lparr>values = [1, 0], ops = [], heap = example_heap\<rparr>) \<and>
   result [''X'', ''Y''] example_index example_heap = Inr {''2'', ''3''}"
proof -
  have "\<forall>t\<in>set [''X'', ''Y'']. \<not> is_operator t"
    using example_not_operator by simp
  from terms_only_no_failure [of "[''X'', ''Y'']" example_index example_heap, OF _ this example_refs_ok]
  have "result [''X'', ''Y''] example_index example_heap =
      Inr (postings example_index example_heap (last [''X'', ''Y'']))"
    by blast
  then have 1: "result [''X'', ''Y''] example_index example_heap = Inr {''2'', ''3''}"
    by (simp add: example_postings)
  have 2: "evaluate [''X'', ''Y''] example_index (QueryEvaluator_init example_heap) =
     (Inr 1, \<lparr>values = [1, 0], ops = [], heap = example_heap\<rparr>)"
    by (simp add: eval_defs example_index_def)
  from 1 2 example_refs_ok example_not_operator show ?thesis by simp
qed

subsection \<open>Failure and result\<close>

lemma not_failed:
  "fst (evaluate query idx st) \<noteq> Inl IndexError \<Longrightarrow>
   \<exists>r st'. evaluate query idx st = (Inr r, st')"
proof -
  assume a: "fst (evaluate query idx st) \<noteq> Inl IndexError"
  obtain x st' where e: "evaluate query idx st = (x, st')" by fastforce
  with a show ?thesis
  proof (cases x)
    case (Inl err)
    with a e show ?thesis by (cases err) simp
  qed auto
qed

text \<open>
  Claim C8, as stated, fails: the token stream \<^verbatim>\<open>X Y\<close> has two term tokens and no
  operator, and its evaluation returns (the set at address 1, the postings of \<^verbatim>\<open>Y\<close>)
  with two values left on the value stack.
\<close>

theorem surplus_operands_counterexample:
  "evaluate [''X'', ''Y''] example_index (QueryEvaluator_init example_heap) =
     (Inr 1, \<lparr>values = [1, 0], ops = [], heap = example_heap\<rparr>) \<and>
   length (values (snd (evaluate [''X'', ''Y''] example_index (QueryEvaluator_init example_heap)))) = 2"
  by (simp add: eval_defs example_index_def)

text \<open>
  Claim C8, amended. For a new evaluator, evaluation raises \<^verbatim>\<open>IndexError\<close> on every
  token stream with too few term tokens: twice their number less than the number of
  operator tokens plus two, or, in a stream without \<^verbatim>\<open>NOT\<close>, their number at most the
  number of operator tokens; so it does on \<^verbatim>\<open>AND X\<close>. Whenever evaluation returns, the
  operator stack is empty, the value stack is not, and the value on top is returned; for
  a stream without \<^verbatim>\<open>NOT\<close> the number of values left is the number of term tokens
  minus the number of operator tokens.
\<close>

theorem underflow_or_top_value:
  "(2 * length (filter (\<lambda>t. \<not> is_operator t) query) < length (filter is_operator query) + 2 \<longrightarrow>
      fst (evaluate query idx (QueryEvaluator_init h)) = Inl IndexError) \<and>
   (''NOT'' \<notin> set query \<longrightarrow>
    length (filter (\<lambda>t. \<not> is_operator t) query) \<le> length (filter is_operator query) \<longrightarrow>
      fst (evaluate query idx (QueryEvaluator_init h)) = Inl IndexError) \<and>
   fst (evaluate [''AND'', X] idx (QueryEvaluator_init h)) = Inl IndexError \<and>
   (evaluate query idx st = (Inr r, st') \<longrightarrow>
      ops st' = [] \<and> values st' \<noteq> [] \<and> r = hd (values st')) \<and>
   (''NOT'' \<notin> set query \<longrightarrow> evaluate query idx (QueryEvaluator_init h) = (Inr r, st') \<longrightarrow>
      length (values st') + length (filter is_operator query) =
        length (filter (\<lambda>t. \<not> is_operator t) query))"
proof (intro conjI impI)
  assume few: "2 * length (filter (\<lambda>t. \<not> is_operator t) query) < length (filter is_operator query) + 2"
  show "fst (evaluate query idx (QueryEvaluator_init h)) = Inl IndexError"
  proof (rule ccontr)
    assume "fst (evaluate query idx (QueryEvaluator_init h)) \<noteq> Inl IndexError"
    from not_failed [OF this] obtain r st' where
      "evaluate query idx (QueryEvaluator_init h) = (Inr r, st')" by blast
    from evaluate_success_count(1) [OF this] few show False by simp
  qed
next
  assume n: "''NOT'' \<notin> set query"
    and few: "length (filter (\<lambda>t. \<not> is_operator t) query) \<le> length (filter is_operator query)"
  show "fst (evaluate query idx (QueryEvaluator_init h)) = Inl IndexError"
  proof (rule ccontr)
    assume "fst (evaluate query idx (QueryEvaluator_init h)) \<noteq> Inl IndexError"
    from not_failed [OF this] obtain r st' where
      e: "evaluate query idx (QueryEvaluator_init h) = (Inr r, st')" by blast
    from evaluate_success [OF e] have "values st' \<noteq> []" by blast
    then have "1 \<le> length (values st')" by (cases "values st'") auto
    with evaluate_success_count(2) [OF e n] few show False by simp
  qed
next
  show "fst (evaluate [''AND'', X] idx (QueryEvaluator_init h)) = Inl IndexError"
  proof (rule ccontr)
    assume "fst (evaluate [''AND'', X] idx (QueryEvaluator_init h)) \<noteq> Inl IndexError"
    from not_failed [OF this] obtain r st' where
      "evaluate [''AND'', X] idx (QueryEvaluator_init h) = (Inr r, st')" by blast
    from evaluate_success_count(1) [OF this] show False
      by (simp add: is_operator_def split: if_splits)
  qed
next
  assume "evaluate query idx st = (Inr r, st')"
  from evaluate_success [OF this]
  show "ops st' = []" and "values st' \<noteq> []" and "r = hd (values st')" by blast+
next
  assume "''NOT'' \<notin> set query" and "evaluate query idx (QueryEvaluator_init h) = (Inr r, st')"
  from evaluate_success_count(2) [OF this(2) this(1)]
  show "length (values st') + length (filter is_operator query) =
        length (filter (\<lambda>t. \<not> is_operator t) query)" .
qed

theorem underflow_or_top_value_witness:
  "2 * length (filter (\<lambda>t. \<not> is_operator t) [''AND'', ''X'']) <
     length (filter is_operator [''AND'', ''X'']) + 2 \<and>
   ''NOT'' \<notin> set [''AND'', ''X''] \<and>
   length (filter (\<lambda>t. \<not> is_operator t) [''AND'', ''X'']) \<le>
     length (filter is_operator [''AND'', ''X'']) \<and>
   fst (evaluate [''AND'', ''X''] example_index (QueryEvaluator_init example_heap)) = Inl IndexError \<and>
   ''NOT'' \<notin> set [''X'', ''AND'', ''Y''] \<and>
   evaluate [''X'', ''AND'', ''Y''] example_index (QueryEvaluator_init example_heap) =
     (Inr 2, \<lparr>values = [2], ops = [], heap = example_heap @ [{''2''}]\<rparr>) \<and>
   ops \<lparr>values = [2], ops = [], heap = example_heap @ [{''2''}]\<rparr> = [] \<and>
   values \<lparr>values = [2], ops = [], heap = example_heap @ [{''2''}]\<rparr> \<noteq> [] \<and>
   2 = hd (values \<lparr>values = [2], ops = [], heap = example_heap @ [{''2''}]\<rparr>) \<and>
   length (values \<lparr>values = [2], ops = [], heap = example_heap @ [{''2''}]\<rparr>) +
     length (filter is_operator [''X'', ''AND'', ''Y'']) =
     length (filter (\<lambda>t. \<not> is_operator t) [''X'', ''AND'', ''Y''])"
proof -
  have c: "2 * length (filter (\<lambda>t. \<not> is_operator t) [''AND'', ''X'']) <
     length (filter is_operator [''AND'', ''X'']) + 2"
    "''NOT'' \<notin> set [''AND'', ''X'']"
    "length (filter (\<lambda>t. \<not> is_operator t) [''AND'', ''X'']) \<le>
     length (filter is_operator [''AND'', ''X''])"
    "''NOT'' \<notin> set [''X'', ''AND'', ''Y'']"
    by (simp_all add: is_operator_def)
  from underflow_or_top_value [where query = "[''AND'', ''X'']" and idx = example_index
      and h = example_heap] c(1)
  have f: "fst (evaluate [''AND'', ''X''] example_index (QueryEvaluator_init example_heap)) =
      Inl IndexError"
    by blast
  have i: "{''1'', ''2''} \<inter> {''2'', ''3''} = {''2'' :: string}" by auto
  have e: "evaluate [''X'', ''AND'', ''Y''] example_index (QueryEvaluator_init example_heap) =
     (Inr 2, \<lparr>values = [2], ops = [], heap = example_heap @ [{''2''}]\<rparr>)"
    by (simp add: eval_defs example_index_def example_heap_def i Int_commute)
  from underflow_or_top_value [where query = "[''X'', ''AND'', ''Y'']" and idx = example_index
      and h = example_heap and r = 2
      and st' = "\<lparr>values = [2], ops = [], heap = example_heap @ [{''2''}]\<rparr>"] c(4) e
  have n: "length (values \<lparr>values = [2], ops = [], heap = example_heap @ [{''2''}]\<rparr>) +
     length (filter is_operator [''X'', ''AND'', ''Y'']) =
     length (filter (\<lambda>t. \<not> is_operator t) [''X'', ''AND'', ''Y''])"
    by blast
  from underflow_or_top_value [where query = "[''X'', ''AND'', ''Y'']" and idx = example_index
      and st = "QueryEvaluator_init example_heap" and r = 2
      and st' = "\<lparr>values = [2], ops = [], heap = example_heap @ [{''2''}]\<rparr>"] e
  have t: "ops \<lparr>values = [2], ops = [], heap = example_heap @ [{''2''}]\<rparr> = []"
    "values \<lparr>values = [2], ops = [], heap = example_heap @ [{''2''}]\<rparr> \<noteq> []"
    "2 = hd (values \<lparr>values = [2], ops = [], heap = example_heap @ [{''2''}]\<rparr>)"
    by blast+
  from c f e n t show ?thesis by blast
qed

section \<open>Properties of the index builder\<close>

subsection \<open>The accumulated term\<close>

text \<open>The accumulated term consists of numeric and alphabetic characters only, none of
  which is whitespace, so it strips to the empty string only when it is empty.\<close>

definition alnum :: "'c tables \<Rightarrow> 'c list \<Rightarrow> bool" where
  "alnum u s = list_all (\<lambda>c. isnumeric u c \<or> isalpha u c) s"

lemma dropWhile_no_space: "list_all (\<lambda>c. \<not> isspace u c) s \<Longrightarrow> dropWhile (isspace u) s = s"
  by (cases s) auto

lemma strip_alnum: "no_alnum_space u \<Longrightarrow> alnum u s \<Longrightarrow> strip u s = s"
proof -
  assume "no_alnum_space u" and "alnum u s"
  then have n: "list_all (\<lambda>c. \<not> isspace u c) s"
    by (auto simp: alnum_def list_all_iff no_alnum_space_def)
  then have "list_all (\<lambda>c. \<not> isspace u c) (rev s)" by (simp add: list_all_iff)
  with n show ?thesis by (simp add: strip_def dropWhile_no_space)
qed

lemma alnum_snoc: "alnum u s \<Longrightarrow> isnumeric u c \<or> isalpha u c \<Longrightarrow> alnum u (s @ [c])"
  by (simp add: alnum_def)

lemma alnum_Nil: "alnum u []"
  by (simp add: alnum_def)

text \<open>The loop stores exactly the terms of \<open>stored_terms\<close>, in that order.\<close>

lemma populate_loop_fold:
  "populate_loop u content tm doc_id ih =
     fold (\<lambda>t. add_posting t doc_id) (stored_terms u content tm) ih"
  by (induction u content tm doc_id ih rule: populate_loop.induct) simp_all

text \<open>The accumulator when the loop ends.\<close>

fun pending :: "'c tables \<Rightarrow> 'c list \<Rightarrow> 'c list \<Rightarrow> 'c list" where
  "pending u [] term = term"
| "pending u (c # content) term =
     (if isnumeric u c \<or> isalpha u c then pending u content (term @ [c])
      else if strip u term = [] then pending u content term
      else pending u content [])"

lemma stored_terms_append:
  "stored_terms u (a @ b) tm = stored_terms u a tm @ stored_terms u b (pending u a tm)"
  by (induction u a tm rule: stored_terms.induct) simp_all

text \<open>The specification's tokenizer emits what the loop stores and then the pending
  term; the loop drops the pending term.\<close>

lemma spec_tokenize_from_stored:
  "no_alnum_space u \<Longrightarrow> alnum u tm \<Longrightarrow>
   spec_tokenize_from u s tm =
     stored_terms u s tm @ (if pending u s tm = [] then [] else [pending u s tm])"
proof (induction u s tm rule: stored_terms.induct)
  case (1 u tm)
  then show ?case by (simp add: strip_alnum)
next
  case (2 u c content tm)
  then show ?case by (auto simp: strip_alnum alnum_snoc alnum_Nil)
qed

lemma alnum_pending: "alnum u tm \<Longrightarrow> alnum u (pending u s tm)"
  by (induction u s tm rule: pending.induct) (auto simp: alnum_snoc alnum_Nil)

definition terminated :: "'c tables \<Rightarrow> 'c list \<Rightarrow> bool" where
  "terminated u s = (s = [] \<or> \<not> (isnumeric u (last s) \<or> isalpha u (last s)))"

lemma pending_snoc:
  "no_alnum_space u \<Longrightarrow> alnum u tm \<Longrightarrow> \<not> (isnumeric u c \<or> isalpha u c) \<Longrightarrow>
   pending u (s @ [c]) tm = []"
proof (induction u s tm rule: pending.induct)
  case (1 u tm)
  then show ?case by (auto simp: strip_alnum)
next
  case (2 u d content tm)
  then show ?case by (auto simp: alnum_snoc alnum_Nil)
qed

lemma pending_terminated:
  assumes "no_alnum_space u" and "terminated u s"
  shows "pending u s [] = []"
proof (cases s rule: rev_cases)
  case Nil
  then show ?thesis by simp
next
  case (snoc ys y)
  with assms(2) have "\<not> (isnumeric u y \<or> isalpha u y)" by (simp add: terminated_def)
  with snoc assms(1) show ?thesis by (simp add: pending_snoc alnum_Nil)
qed

lemma stored_terms_concat:
  "no_alnum_space u \<Longrightarrow> \<forall>f\<in>set fs. terminated u f \<Longrightarrow>
   stored_terms u (concat fs) [] = concat (map (\<lambda>f. stored_terms u f []) fs)"
  by (induction fs) (simp_all add: stored_terms_append pending_terminated)

subsection \<open>The dictionary as a map from terms to sets\<close>

text \<open>The dictionary owns its sets: every address it holds is allocated, and no two keys
  hold the same address.\<close>

definition index_ok :: "('k \<rightharpoonup> ref) \<times> heap \<Rightarrow> bool" where
  "index_ok ih = (refs_ok (fst ih) (snd ih) \<and> inj_on (fst ih) (dom (fst ih)))"

definition view :: "('k \<rightharpoonup> ref) \<times> heap \<Rightarrow> 'k \<rightharpoonup> doc_id set" where
  "view ih = entry (fst ih) (snd ih)"

definition with_posting :: "'k \<Rightarrow> doc_id \<Rightarrow> ('k \<rightharpoonup> doc_id set) \<Rightarrow> ('k \<rightharpoonup> doc_id set)" where
  "with_posting t d m = m(t \<mapsto> insert d (case m t of None \<Rightarrow> {} | Some s \<Rightarrow> s))"

lemma index_ok_empty: "index_ok (Map.empty, [])"
  by (simp add: index_ok_def refs_ok_def)

lemma add_posting_ok: "index_ok ih \<Longrightarrow> index_ok (add_posting t d ih)"
proof -
  assume ok: "index_ok ih"
  obtain idx h where ih: "ih = (idx, h)" by (cases ih)
  show ?thesis
  proof (cases "idx t")
    case (Some r)
    with ok ih show ?thesis by (simp add: add_posting_def index_ok_def refs_ok_def)
  next
    case None
    from ok ih have r: "\<forall>t r. idx t = Some r \<longrightarrow> r < length h" and i: "inj_on idx (dom idx)"
      by (simp_all add: index_ok_def refs_ok_def)
    from r have 1: "refs_ok (idx(t \<mapsto> length h)) (h @ [{d}])"
      by (auto simp: refs_ok_def less_Suc_eq)
    from r have fresh: "idx y \<noteq> Some (length h)" for y by fastforce
    have 2: "inj_on (idx(t \<mapsto> length h)) (dom (idx(t \<mapsto> length h)))"
    proof (rule inj_onI)
      fix x y
      assume x: "x \<in> dom (idx(t \<mapsto> length h))" and y: "y \<in> dom (idx(t \<mapsto> length h))"
        and e: "(idx(t \<mapsto> length h)) x = (idx(t \<mapsto> length h)) y"
      show "x = y"
      proof (cases "x = t")
        case True
        with e fresh [of y] show ?thesis by (cases "y = t") (auto simp: fun_upd_def)
      next
        case False
        note xt = this
        show ?thesis
        proof (cases "y = t")
          case True
          with e fresh [of x] xt show ?thesis by (auto simp: fun_upd_def)
        next
          case False
          with xt x y e i show ?thesis by (auto simp: inj_on_def)
        qed
      qed
    qed
    from None ih 1 2 show ?thesis
      by (simp add: add_posting_def index_ok_def alloc_def)
  qed
qed

lemma add_posting_view:
  "index_ok ih \<Longrightarrow> view (add_posting t d ih) = with_posting t d (view ih)"
proof -
  assume ok: "index_ok ih"
  obtain idx h where ih: "ih = (idx, h)" by (cases ih)
  from ok ih have r: "\<forall>t r. idx t = Some r \<longrightarrow> r < length h" and i: "inj_on idx (dom idx)"
    by (simp_all add: index_ok_def refs_ok_def)
  show ?thesis
  proof (cases "idx t")
    case (Some a)
    with r have a: "a < length h" by blast
    have "view (idx, h[a := insert d (h ! a)]) t' = with_posting t d (view (idx, h)) t'" for t'
    proof (cases "t' = t")
      case True
      with Some a show ?thesis by (simp add: view_def entry_def with_posting_def)
    next
      case False
      show ?thesis
      proof (cases "idx t'")
        case None
        with False show ?thesis by (simp add: view_def entry_def with_posting_def)
      next
        case (Some b)
        with \<open>idx t = Some a\<close> False i have "b \<noteq> a"
          by (auto simp: inj_on_def dom_def)
        with Some False show ?thesis by (simp add: view_def entry_def with_posting_def)
      qed
    qed
    with Some ih show ?thesis by (simp add: add_posting_def fun_eq_iff)
  next
    case None
    have "view (idx(t \<mapsto> length h), h @ [{d}]) t' = with_posting t d (view (idx, h)) t'" for t'
    proof (cases "t' = t")
      case True
      with None show ?thesis by (simp add: view_def entry_def with_posting_def)
    next
      case False
      with r show ?thesis
        by (auto simp: view_def entry_def with_posting_def nth_append split: option.splits)
    qed
    with None ih show ?thesis by (simp add: add_posting_def alloc_def fun_eq_iff)
  qed
qed

lemma fold_add_posting:
  "index_ok ih \<Longrightarrow>
   index_ok (fold (\<lambda>t. add_posting t d) ts ih) \<and>
   view (fold (\<lambda>t. add_posting t d) ts ih) = fold (\<lambda>t. with_posting t d) ts (view ih)"
  by (induction ts arbitrary: ih) (simp_all add: add_posting_ok add_posting_view)

lemma fold_with_posting:
  "fold (\<lambda>t. with_posting t d) ts m =
     (\<lambda>t. if t \<in> set ts then Some (insert d (case m t of None \<Rightarrow> {} | Some s \<Rightarrow> s)) else m t)"
  by (induction ts arbitrary: m) (auto simp: with_posting_def fun_eq_iff)

text \<open>What the loop does to the dictionary, seen as a map from terms to sets.\<close>

lemma populate_loop_view:
  assumes "index_ok ih"
  shows "index_ok (populate_loop u content tm d ih)"
    and "view (populate_loop u content tm d ih) =
      (\<lambda>t. if t \<in> set (stored_terms u content tm)
            then Some (insert d (case view ih t of None \<Rightarrow> {} | Some s \<Rightarrow> s))
            else view ih t)"
  using fold_add_posting [OF assms, of d "stored_terms u content tm"]
  by (simp_all add: populate_loop_fold fold_with_posting)

definition document_content :: "'c document \<Rightarrow> 'c list" where
  "document_content document =
     collect_content (TITLE document) @ collect_content (HEADING document) @
     collect_content (TEXT document)"

lemma populate_inverted_index_content:
  "populate_inverted_index u document doc_id ih =
     populate_loop u (document_content document) [] doc_id ih"
  by (simp add: populate_inverted_index_def document_content_def)

lemma spec_tokenize_stored:
  "no_alnum_space u \<Longrightarrow>
   spec_tokenize u s = stored_terms u s [] @ (if pending u s [] = [] then [] else [pending u s []])"
  by (simp add: spec_tokenize_def spec_tokenize_from_stored alnum_Nil)

lemma stored_terms_separator:
  "no_alnum_space u \<Longrightarrow> \<not> (isnumeric u c \<or> isalpha u c) \<Longrightarrow>
   stored_terms u (s @ [c]) [] = spec_tokenize u s"
  using alnum_pending [OF alnum_Nil, of u s]
  by (simp add: stored_terms_append spec_tokenize_stored strip_alnum)

text \<open>The dictionary after the documents of a file, and after all files: a document
  identifier is in the postings of a term exactly when the loop stores the term for a
  document with that identifier.\<close>

definition storing :: "'c tables \<Rightarrow> 'c document list \<Rightarrow> 'c list \<Rightarrow> doc_id set" where
  "storing u documents t =
     {DOCID document | document.
        document \<in> set documents \<and> t \<in> set (stored_terms u (document_content document) [])}"

lemma storing_Nil: "storing u [] t = {}"
  by (simp add: storing_def)

lemma storing_Cons:
  "storing u (document # documents) t =
     (if t \<in> set (stored_terms u (document_content document) [])
      then insert (DOCID document) (storing u documents t) else storing u documents t)"
  by (auto simp: storing_def)

lemma storing_append: "storing u (xs @ ys) t = storing u xs t \<union> storing u ys t"
  by (auto simp: storing_def)

lemma generate_inverted_index_view:
  "index_ok ih \<Longrightarrow>
   index_ok (generate_inverted_index u documents ih) \<and>
   view (generate_inverted_index u documents ih) t =
     (if storing u documents t = {} then view ih t
      else Some (storing u documents t \<union> (case view ih t of None \<Rightarrow> {} | Some s \<Rightarrow> s)))"
proof (induction documents arbitrary: ih)
  case Nil
  then show ?case by (simp add: storing_Nil)
next
  case (Cons document documents)
  let ?ih = "populate_inverted_index u document (DOCID document) ih"
  from Cons.prems have ok: "index_ok ?ih"
    by (simp add: populate_inverted_index_content populate_loop_view(1))
  from Cons.prems have v: "view ?ih t =
      (if t \<in> set (stored_terms u (document_content document) [])
       then Some (insert (DOCID document) (case view ih t of None \<Rightarrow> {} | Some s \<Rightarrow> s))
       else view ih t)"
    by (simp add: populate_inverted_index_content populate_loop_view(2))
  from Cons.IH [OF ok] v show ?case
    by (auto simp: storing_Cons split: option.splits)
qed

definition corpus :: "(string \<times> 'c document list) list \<Rightarrow> 'c document list" where
  "corpus files = concat (map snd (filter (\<lambda>file. fst file \<noteq> ''czech.dtd'') files))"

lemma files_loop_view:
  "index_ok ih \<Longrightarrow>
   index_ok (files_loop u files ih) \<and>
   view (files_loop u files ih) t =
     (if storing u (corpus files) t = {} then view ih t
      else Some (storing u (corpus files) t \<union> (case view ih t of None \<Rightarrow> {} | Some s \<Rightarrow> s)))"
proof (induction files arbitrary: ih)
  case Nil
  then show ?case by (simp add: storing_Nil corpus_def)
next
  case (Cons f files)
  obtain filename documents where f: "f = (filename, documents)" by (cases f)
  show ?case
  proof (cases "filename = ''czech.dtd''")
    case True
    with Cons f show ?thesis by (simp add: corpus_def)
  next
    case False
    let ?ih = "generate_inverted_index u documents ih"
    from generate_inverted_index_view [OF Cons.prems, of u documents t]
    have ok: "index_ok ?ih" and v: "view ?ih t =
       (if storing u documents t = {} then view ih t
        else Some (storing u documents t \<union> (case view ih t of None \<Rightarrow> {} | Some s \<Rightarrow> s)))"
      by simp_all
    from Cons.IH [OF ok] v False f show ?thesis
      by (auto simp: storing_append corpus_def split: option.splits)
  qed
qed

lemma index_membership_stored_terms:
  "view (InvertedIndex_init u files) t =
     (if storing u (corpus files) t = {} then None else Some (storing u (corpus files) t))"
  using files_loop_view [OF index_ok_empty, of u files t]
  by (simp add: InvertedIndex_init_def view_def entry_def)

lemma stored_terms_not_empty: "[] \<notin> set (stored_terms u s tm)"
  by (induction u s tm rule: stored_terms.induct) (auto simp: strip_def)

subsection \<open>The end of the input\<close>

lemmas char_defs = latin1_def strip_def

lemma latin1_no_alnum_space: "no_alnum_space latin1"
  by (auto simp: no_alnum_space_def latin1_def)

lemma latin1_beyond_ascii:
  "isalpha latin1 (CHR 0xE9) \<and> isnumeric latin1 (CHR 0xB2) \<and> isspace latin1 (CHR 0xA0) \<and>
   \<not> isalpha latin1 (CHR 0xD7) \<and> \<not> isnumeric latin1 (CHR 0xD7)"
  by (simp add: latin1_def)

definition example_documents :: "char document list" where
  "example_documents =
     [\<lparr>DOCID = ''D1'', TITLE = [], HEADING = [], TEXT = [Some ''cat dog'']\<rparr>,
      \<lparr>DOCID = ''D2'', TITLE = [], HEADING = [], TEXT = [Some ''dog bird'']\<rparr>]"

text \<open>
  Claim C5. The claim: scanning emits the accumulated term at every character that is
  neither numeric nor alphabetic and at the end of the input, so that the last run of
  the input is a term; the empty string yields no terms and \<^verbatim>\<open>a1 b-2!!c3\<close> yields
  \<^verbatim>\<open>a1\<close>, \<^verbatim>\<open>b\<close>, \<^verbatim>\<open>2\<close>, \<^verbatim>\<open>c3\<close>. The code: the loop stores a term only at a character
  that is neither numeric nor alphabetic, and nothing follows the loop. On
  \<^verbatim>\<open>a1 b-2!!c3\<close> it stores \<^verbatim>\<open>a1\<close>, \<^verbatim>\<open>b\<close> and \<^verbatim>\<open>2\<close>, and the dictionary has no key
  \<^verbatim>\<open>c3\<close>, where the tokenizer of the specification emits \<^verbatim>\<open>c3\<close> as well.
\<close>

theorem final_run_not_stored:
  "stored_terms latin1 [] [] = [] \<and>
   stored_terms latin1 ''a1 b-2!!c3'' [] = [''a1'', ''b'', ''2''] \<and>
   spec_tokenize latin1 ''a1 b-2!!c3'' = [''a1'', ''b'', ''2'', ''c3''] \<and>
   view (populate_loop latin1 ''a1 b-2!!c3'' [] ''D1'' (Map.empty, [])) ''2'' = Some {''D1''} \<and>
   view (populate_loop latin1 ''a1 b-2!!c3'' [] ''D1'' (Map.empty, [])) ''c3'' = None"
  by (simp add: char_defs spec_tokenize_def add_posting_def alloc_def view_def entry_def)

text \<open>
  Claim C1. The claim: a document is in the postings of a term exactly when the term
  occurs in the document's tokenized content, and the dictionary has no key that occurs
  in no document. The code, on the documents \<^verbatim>\<open>D1\<close> with text \<^verbatim>\<open>cat dog\<close> and \<^verbatim>\<open>D2\<close>
  with text \<^verbatim>\<open>dog bird\<close>: \<^verbatim>\<open>dog\<close> is a token of \<^verbatim>\<open>D1\<close> and \<^verbatim>\<open>bird\<close> a token of \<^verbatim>\<open>D2\<close>,
  but the postings of \<^verbatim>\<open>dog\<close> are \<^verbatim>\<open>D2\<close> alone and \<^verbatim>\<open>bird\<close> is not a key, because the
  last run of a content is never stored (\<open>index_membership_stored_terms\<close> is the
  invariant that holds).
\<close>

theorem last_term_missing_from_index:
  "view (InvertedIndex_init latin1 [(''documents.xml'', example_documents)]) ''cat'' = Some {''D1''} \<and>
   view (InvertedIndex_init latin1 [(''documents.xml'', example_documents)]) ''dog'' = Some {''D2''} \<and>
   view (InvertedIndex_init latin1 [(''documents.xml'', example_documents)]) ''bird'' = None \<and>
   ''dog'' \<in> set (spec_tokenize latin1 (document_content (example_documents ! 0))) \<and>
   ''bird'' \<in> set (spec_tokenize latin1 (document_content (example_documents ! 1)))"
  by (simp add: InvertedIndex_init_def example_documents_def populate_inverted_index_def
      document_content_def collect_content_def char_defs spec_tokenize_def
      add_posting_def alloc_def view_def entry_def)

subsection \<open>The order of concatenation\<close>

definition example_document :: "char document" where
  "example_document = \<lparr>DOCID = ''D1'', TITLE = [Some ''a''], HEADING = [Some ''b''], TEXT = [Some '' '']\<rparr>"

text \<open>
  Claim C6, as stated, fails: a document with title \<^verbatim>\<open>a\<close>, heading \<^verbatim>\<open>b\<close> and a text of
  one space contributes the term \<^verbatim>\<open>ab\<close> when the three texts are concatenated in the
  order title, heading, text, and does not when the heading comes first (it contributes
  \<^verbatim>\<open>ba\<close> then): the texts are concatenated without a separator.
\<close>

theorem concatenation_order_counterexample:
  "view (populate_inverted_index latin1 example_document ''D1'' (Map.empty, [])) ''ab'' = Some {''D1''} \<and>
   view (populate_loop latin1
      (collect_content (HEADING example_document) @ collect_content (TITLE example_document) @
       collect_content (TEXT example_document)) [] ''D1'' (Map.empty, [])) ''ab'' = None"
  by (simp add: example_document_def populate_inverted_index_def
      collect_content_def char_defs add_posting_def alloc_def view_def entry_def)

text \<open>
  Claim C6, amended. For a document whose collected title, heading and text each are
  empty or end with a character that is neither numeric nor alphabetic, the dictionary
  after the document is the same, as a map from terms to sets of document identifiers,
  in whichever order the three texts are concatenated. This holds for every type of
  characters and all tables in which, as in Python's, no numeric or alphabetic
  character is whitespace.
\<close>

theorem concatenation_order_terminated:
  assumes "no_alnum_space u"
    and "index_ok ih"
    and "terminated u (collect_content (TITLE document))"
    and "terminated u (collect_content (HEADING document))"
    and "terminated u (collect_content (TEXT document))"
    and "mset texts =
      mset [collect_content (TITLE document), collect_content (HEADING document),
            collect_content (TEXT document)]"
  shows "view (populate_loop u (concat texts) [] doc_id ih) =
         view (populate_inverted_index u document doc_id ih)"
proof -
  let ?fs = "[collect_content (TITLE document), collect_content (HEADING document),
            collect_content (TEXT document)]"
  from assms(6) have s: "set texts = set ?fs" by (rule mset_eq_setD)
  with assms(3-5) have t: "\<forall>f\<in>set texts. terminated u f" by simp
  from assms(3-5) have t': "\<forall>f\<in>set ?fs. terminated u f" by simp
  have "set (stored_terms u (concat texts) []) = (\<Union>f\<in>set texts. set (stored_terms u f []))"
    by (simp add: stored_terms_concat [OF assms(1) t])
  also have "\<dots> = (\<Union>f\<in>set ?fs. set (stored_terms u f []))" by (simp only: s)
  also have "\<dots> = set (stored_terms u (concat ?fs) [])"
    using stored_terms_concat [OF assms(1) t'] by simp
  finally have "set (stored_terms u (concat texts) []) =
      set (stored_terms u (document_content document) [])"
    by (simp add: document_content_def)
  then show ?thesis
    by (simp add: populate_inverted_index_content populate_loop_view(2) [OF assms(2)])
qed

definition terminated_document :: "char document" where
  "terminated_document =
     \<lparr>DOCID = ''D1'', TITLE = [Some ''cat ''], HEADING = [], TEXT = [Some ''dog bird.'']\<rparr>"

theorem concatenation_order_terminated_witness:
  "no_alnum_space latin1 \<and> index_ok (Map.empty, []) \<and>
   terminated latin1 (collect_content (TITLE terminated_document)) \<and>
   terminated latin1 (collect_content (HEADING terminated_document)) \<and>
   terminated latin1 (collect_content (TEXT terminated_document)) \<and>
   mset [''dog bird.'', ''cat '', ''''] =
     mset [collect_content (TITLE terminated_document),
           collect_content (HEADING terminated_document),
           collect_content (TEXT terminated_document)] \<and>
   view (populate_loop latin1 (concat [''dog bird.'', ''cat '', '''']) [] ''D1'' (Map.empty, [])) =
     view (populate_inverted_index latin1 terminated_document ''D1'' (Map.empty, [])) \<and>
   view (populate_inverted_index latin1 terminated_document ''D1'' (Map.empty, [])) ''bird'' =
     Some {''D1''}"
proof -
  have t: "terminated latin1 (collect_content (TITLE terminated_document))"
    "terminated latin1 (collect_content (HEADING terminated_document))"
    "terminated latin1 (collect_content (TEXT terminated_document))"
    by (simp_all add: terminated_document_def collect_content_def terminated_def char_defs)
  have m: "mset [''dog bird.'', ''cat '', ''''] =
     mset [collect_content (TITLE terminated_document),
           collect_content (HEADING terminated_document),
           collect_content (TEXT terminated_document)]"
    by (simp add: terminated_document_def collect_content_def)
  from concatenation_order_terminated [OF latin1_no_alnum_space index_ok_empty t m]
  have e: "view (populate_loop latin1 (concat [''dog bird.'', ''cat '', '''']) [] ''D1'' (Map.empty, [])) =
     view (populate_inverted_index latin1 terminated_document ''D1'' (Map.empty, []))" .
  have b: "view (populate_inverted_index latin1 terminated_document ''D1'' (Map.empty, [])) ''bird'' =
     Some {''D1''}"
    by (simp add: terminated_document_def populate_inverted_index_def
      collect_content_def char_defs add_posting_def alloc_def view_def entry_def)
  from latin1_no_alnum_space index_ok_empty t m e b show ?thesis by blast
qed

text \<open>
  The hypothesis on the ends of the texts is about the tables, not about ASCII. A title
  that is the single letter with code point 233 is not terminated: concatenated before
  the heading \<^verbatim>\<open>a\<close> followed by a space it gives one term of two letters, and
  concatenated after it only the term \<^verbatim>\<open>a\<close>.
\<close>

definition accented_document :: "char document" where
  "accented_document =
     \<lparr>DOCID = ''D1'', TITLE = [Some [CHR 0xE9]], HEADING = [Some ''a ''], TEXT = []\<rparr>"

lemma letter_beyond_ascii_merges:
  "\<not> terminated latin1 (collect_content (TITLE accented_document)) \<and>
   view (populate_inverted_index latin1 accented_document ''D1'' (Map.empty, []))
     [CHR 0xE9, CHR ''a''] = Some {''D1''} \<and>
   view (populate_loop latin1
      (collect_content (HEADING accented_document) @ collect_content (TITLE accented_document) @
       collect_content (TEXT accented_document)) [] ''D1'' (Map.empty, [])) ''a'' = Some {''D1''} \<and>
   view (populate_loop latin1
      (collect_content (HEADING accented_document) @ collect_content (TITLE accented_document) @
       collect_content (TEXT accented_document)) [] ''D1'' (Map.empty, []))
     [CHR 0xE9, CHR ''a''] = None"
  by (simp add: accented_document_def populate_inverted_index_def terminated_def
      collect_content_def char_defs add_posting_def alloc_def view_def entry_def)

end
